theory Spec2Isabelle
  imports Main "HOL-Library.Word"
begin

unbundle bit_operations_syntax

section \<open>The generator of \<^verbatim>\<open>rng.py\<close>\<close>

text \<open>
  The class \<^verbatim>\<open>XorshiftRNG\<close> keeps three fields: the scrambler state, the list of
  whitened bits and an index that no method reads or writes after construction.
  Python integers are unbounded, so they are \<^typ>\<open>int\<close> here and every mask of the
  source is written out. Method names lose their leading underscore.
\<close>

record rng =
  state :: int
  bit_buffer :: "int list"
  buffer_index :: int

text \<open>
  A method either returns, raises, or loops forever. \<open>None\<close> is "does not return",
  \<open>Some (Inl e)\<close> is the exception \<open>e\<close>, \<open>Some (Inr v)\<close> is the returned value
  (together with the updated generator). The only exception the class can raise on
  integer arguments is the \<^verbatim>\<open>IndexError\<close> of \<^verbatim>\<open>pop(0)\<close> on an empty list.
\<close>

datatype py_error = IndexError

type_synonym 'a result = "(py_error + 'a) option"

text \<open>\<^verbatim>\<open>0xFFFFFFFFFFFFFFFF\<close>, and the multiplier of \<^verbatim>\<open>_xorshift64_raw\<close>.\<close>

definition MASK64 :: int where
  "MASK64 = 18446744073709551615"

definition MAGIC :: int where
  "MAGIC = 2685821657736338717"

text \<open>
  \<^verbatim>\<open>
  def __init__(self, seed=1234567890):
      self.state = seed & 0xFFFFFFFFFFFFFFFF
      if self.state == 0:
          self.state = 1
      self.bit_buffer = []
      self.buffer_index = 0
  \<close>
\<close>

definition default_seed :: int where
  "default_seed = 1234567890"

definition init :: "int \<Rightarrow> rng" where
  "init seed =
     (let s = seed AND MASK64;
          s' = (if s = 0 then 1 else s)
      in \<lparr>state = s', bit_buffer = [], buffer_index = 0\<rparr>)"

text \<open>
  \<^verbatim>\<open>
  def _xorshift64_raw(self):
      x = self.state
      x ^= (x << 12) & 0xFFFFFFFFFFFFFFFF
      x ^= (x >> 25)
      x ^= (x << 27) & 0xFFFFFFFFFFFFFFFF
      self.state = x
      MAGIC = 2685821657736338717
      result = (x * MAGIC) & 0xFFFFFFFFFFFFFFFF
      return result
  \<close>
  The result is the returned word paired with the updated generator.
\<close>

definition xorshift64_raw :: "rng \<Rightarrow> int \<times> rng" where
  "xorshift64_raw g =
     (let x = state g;
          x = x XOR (push_bit 12 x AND MASK64);
          x = x XOR (drop_bit 25 x);
          x = x XOR (push_bit 27 x AND MASK64);
          g' = g\<lparr>state := x\<rparr>;
          result = (x * MAGIC) AND MASK64
      in (result, g'))"

text \<open>
  \<^verbatim>\<open>
  def _extract_bit(self, number, bit_pos):
      return (number >> bit_pos) & 1
  \<close>
  The class only calls it with positions 0 to 63, hence a \<^typ>\<open>nat\<close> position.
\<close>

definition extract_bit :: "int \<Rightarrow> nat \<Rightarrow> int" where
  "extract_bit number bit_pos = drop_bit bit_pos number AND 1"

text \<open>
  The body of the \<^verbatim>\<open>for\<close> loop of \<^verbatim>\<open>_fill_buffer\<close>, for one index \<open>i\<close>:
  \<^verbatim>\<open>
  bit1 = self._extract_bit(raw, i)
  bit2 = self._extract_bit(raw, i + 1)
  if bit1 == 0 and bit2 == 1:
      self.bit_buffer.append(0)
  elif bit1 == 1 and bit2 == 0:
      self.bit_buffer.append(1)
  \<close>
\<close>

definition whiten_pair :: "int \<Rightarrow> int list \<Rightarrow> nat \<Rightarrow> int list" where
  "whiten_pair raw buf i =
     (let bit1 = extract_bit raw i;
          bit2 = extract_bit raw (i + 1)
      in if bit1 = 0 \<and> bit2 = 1 then buf @ [0]
         else if bit1 = 1 \<and> bit2 = 0 then buf @ [1]
         else buf)"

text \<open>Python's \<^verbatim>\<open>range(start, stop, step)\<close> for a positive step.\<close>

function range_step :: "nat \<Rightarrow> nat \<Rightarrow> nat \<Rightarrow> nat list" where
  "range_step start stop step =
     (if start < stop \<and> 0 < step then start # range_step (start + step) stop step else [])"
  by pat_completeness auto
termination
  by (relation "measure (\<lambda>(start, stop, step). stop - start)") auto

text \<open>The whole loop \<^verbatim>\<open>for i in range(0, 64, 2)\<close> over one raw word.\<close>

definition whiten_word :: "int \<Rightarrow> int list \<Rightarrow> int list" where
  "whiten_word raw buf = foldl (whiten_pair raw) buf (range_step 0 64 2)"

text \<open>
  \<^verbatim>\<open>
  def _fill_buffer(self):
      while len(self.bit_buffer) < 32:
          raw = self._xorshift64_raw()
          for i in range(0, 64, 2):
              ...
  \<close>
  Nothing in the code bounds the number of rounds of this loop, so the model is a
  partial function: \<open>None\<close> where the loop does not end.
\<close>

partial_function (option) fill_buffer :: "rng \<Rightarrow> rng option" where
  "fill_buffer g =
     (if length (bit_buffer g) < 32
      then (case xorshift64_raw g of
              (raw, g1) \<Rightarrow> fill_buffer (g1\<lparr>bit_buffer := whiten_word raw (bit_buffer g1)\<rparr>))
      else Some g)"

declare fill_buffer.simps [code]

text \<open>
  \<^verbatim>\<open>
  def generate_raw_bit(self):
      if len(self.bit_buffer) == 0:
          self._fill_buffer()
      bit = self.bit_buffer.pop(0)
      return bit
  \<close>
\<close>

definition generate_raw_bit :: "rng \<Rightarrow> (int \<times> rng) result" where
  "generate_raw_bit g =
     (case (if length (bit_buffer g) = 0 then fill_buffer g else Some g) of
        None \<Rightarrow> None
      | Some g1 \<Rightarrow>
          (case bit_buffer g1 of
             [] \<Rightarrow> Some (Inl IndexError)
           | b # rest \<Rightarrow> Some (Inr (b, g1\<lparr>bit_buffer := rest\<rparr>))))"

text \<open>
  \<^verbatim>\<open>
  def apply_whitening(self, num_bits=8):
      result = 0
      for i in range(num_bits):
          bit = self.generate_raw_bit()
          result |= (bit << i)
      return result
  \<close>
  \<open>whitening_loop\<close> is the \<^verbatim>\<open>for\<close> loop over the remaining indices, with the
  accumulator \<^verbatim>\<open>result\<close>. \<^verbatim>\<open>range(num_bits)\<close> is empty for a negative argument.
\<close>

fun whitening_loop :: "nat list \<Rightarrow> int \<Rightarrow> rng \<Rightarrow> (int \<times> rng) result" where
  "whitening_loop [] result g = Some (Inr (result, g))"
| "whitening_loop (i # is) result g =
     (case generate_raw_bit g of
        None \<Rightarrow> None
      | Some (Inl e) \<Rightarrow> Some (Inl e)
      | Some (Inr (b, g1)) \<Rightarrow> whitening_loop is (result OR push_bit i b) g1)"

definition apply_whitening :: "rng \<Rightarrow> int \<Rightarrow> (int \<times> rng) result" where
  "apply_whitening g num_bits = whitening_loop [0..<nat num_bits] 0 g"

text \<open>
  Python's \<^verbatim>\<open>int.bit_length()\<close>: the number of binary digits of the absolute value,
  0 for 0.
\<close>

fun bit_length_nat :: "nat \<Rightarrow> nat" where
  "bit_length_nat n = (if n = 0 then 0 else Suc (bit_length_nat (n div 2)))"

declare bit_length_nat.simps [simp del]

definition bit_length :: "int \<Rightarrow> nat" where
  "bit_length x = bit_length_nat (nat \<bar>x\<bar>)"

text \<open>
  \<^verbatim>\<open>
  def get_random_number(self, max_value=256):
      if max_value <= 1:
          return 0
      bit_length = max_value.bit_length()
      while True:
          num = self.apply_whitening(bit_length)
          if num < max_value:
              return num
  \<close>
  \<open>sample_loop\<close> is the \<^verbatim>\<open>while True\<close> loop; it has no bound on its rounds.
\<close>

partial_function (option) sample_loop :: "rng \<Rightarrow> nat \<Rightarrow> int \<Rightarrow> (int \<times> rng) result" where
  "sample_loop g width max_value =
     (case apply_whitening g (int width) of
        None \<Rightarrow> None
      | Some (Inl e) \<Rightarrow> Some (Inl e)
      | Some (Inr (num, g1)) \<Rightarrow>
          if num < max_value then Some (Inr (num, g1)) else sample_loop g1 width max_value)"

declare sample_loop.simps [code]

definition get_random_number :: "rng \<Rightarrow> int \<Rightarrow> (int \<times> rng) result" where
  "get_random_number g max_value =
     (if max_value \<le> 1 then Some (Inr (0, g))
      else sample_loop g (bit_length max_value) max_value)"

text \<open>
  \<^verbatim>\<open>
  def get_random_bits(self, n):
      bits = []
      for _ in range(n):
          bits.append(self.generate_raw_bit())
      return bits
  \<close>
\<close>

fun bits_loop :: "nat \<Rightarrow> int list \<Rightarrow> rng \<Rightarrow> (int list \<times> rng) result" where
  "bits_loop 0 bits g = Some (Inr (bits, g))"
| "bits_loop (Suc n) bits g =
     (case generate_raw_bit g of
        None \<Rightarrow> None
      | Some (Inl e) \<Rightarrow> Some (Inl e)
      | Some (Inr (b, g1)) \<Rightarrow> bits_loop n (bits @ [b]) g1)"

definition get_random_bits :: "rng \<Rightarrow> int \<Rightarrow> (int list \<times> rng) result" where
  "get_random_bits g n = bits_loop (nat n) [] g"

subsection \<open>Sequences of method calls\<close>

text \<open>
  A client drives one generator through a sequence of method calls. \<open>perform\<close> is one
  call, \<open>run\<close> a sequence of them; an exception or a call that does not return ends
  the sequence as it would end the client.
\<close>

datatype call =
    XorshiftRaw
  | FillBuffer
  | GenerateRawBit
  | ApplyWhitening int
  | GetRandomNumber int
  | GetRandomBits int

datatype retval = IntVal int | BitsVal "int list" | NoneVal

fun tag :: "('a \<Rightarrow> retval) \<Rightarrow> ('a \<times> rng) result \<Rightarrow> (retval \<times> rng) result" where
  "tag f None = None"
| "tag f (Some (Inl e)) = Some (Inl e)"
| "tag f (Some (Inr (v, g))) = Some (Inr (f v, g))"

fun perform :: "rng \<Rightarrow> call \<Rightarrow> (retval \<times> rng) result" where
  "perform g XorshiftRaw = tag IntVal (Some (Inr (xorshift64_raw g)))"
| "perform g FillBuffer = tag (\<lambda>_. NoneVal) (map_option (\<lambda>g'. Inr ((), g')) (fill_buffer g))"
| "perform g GenerateRawBit = tag IntVal (generate_raw_bit g)"
| "perform g (ApplyWhitening num_bits) = tag IntVal (apply_whitening g num_bits)"
| "perform g (GetRandomNumber max_value) = tag IntVal (get_random_number g max_value)"
| "perform g (GetRandomBits n) = tag BitsVal (get_random_bits g n)"

fun run :: "rng \<Rightarrow> call list \<Rightarrow> (retval list \<times> rng) result" where
  "run g [] = Some (Inr ([], g))"
| "run g (c # cs) =
     (case perform g c of
        None \<Rightarrow> None
      | Some (Inl e) \<Rightarrow> Some (Inl e)
      | Some (Inr (v, g1)) \<Rightarrow>
          (case run g1 cs of
             None \<Rightarrow> None
           | Some (Inl e) \<Rightarrow> Some (Inl e)
           | Some (Inr (vs, g2)) \<Rightarrow> Some (Inr (v # vs, g2))))"

subsection \<open>The algorithms as the specification words them\<close>

text \<open>
  The Xorshift64* step on a 64-bit machine word, all arithmetic wrapping modulo
  \<open>2^64\<close>: the output word and the new state.
\<close>

definition next_raw_word :: "64 word \<Rightarrow> 64 word \<times> 64 word" where
  "next_raw_word w =
     (let x = w;
          x = x XOR push_bit 12 x;
          x = x XOR drop_bit 25 x;
          x = x XOR push_bit 27 x
      in (x * 2685821657736338717, x))"

text \<open>
  Von Neumann's rule on one pair, and on the 32 pairs \<open>(w[i], w[i+1])\<close> of a word
  for \<open>i = 0, 2, \<dots>, 62\<close> in increasing order.
\<close>

fun von_neumann_pair :: "bool \<Rightarrow> bool \<Rightarrow> int list" where
  "von_neumann_pair False True = [0]"
| "von_neumann_pair True False = [1]"
| "von_neumann_pair _ _ = []"

definition von_neumann_word :: "int \<Rightarrow> int list" where
  "von_neumann_word w =
     concat (map (\<lambda>i. von_neumann_pair (bit w i) (bit w (i + 1))) (map (\<lambda>k. 2 * k) [0..<32]))"

text \<open>The pairs \<open>(w[i], w[i+1])\<close> that the code reads at the given positions.\<close>

definition pairs_at :: "int \<Rightarrow> nat list \<Rightarrow> (int \<times> int) list" where
  "pairs_at w is = map (\<lambda>i. (extract_bit w i, extract_bit w (i + 1))) is"

text \<open>The number written with the given binary digits, most significant digit first.\<close>

definition binary :: "int list \<Rightarrow> int" where
  "binary ds = foldl (\<lambda>a d. 2 * a + d) 0 ds"

subsection \<open>Invariants\<close>

definition state_ok :: "int \<Rightarrow> bool" where
  "state_ok x \<longleftrightarrow> 0 < x \<and> x < 2 ^ 64"

definition bits_ok :: "int list \<Rightarrow> bool" where
  "bits_ok bs \<longleftrightarrow> set bs \<subseteq> {0, 1}"

definition rng_inv :: "rng \<Rightarrow> bool" where
  "rng_inv g \<longleftrightarrow> state_ok (state g) \<and> bits_ok (bit_buffer g)"

text \<open>A method call keeps each of the two invariants that held before it.\<close>

definition keeps :: "rng \<Rightarrow> rng \<Rightarrow> bool" where
  "keeps g g' \<longleftrightarrow>
     (state_ok (state g) \<longrightarrow> state_ok (state g')) \<and>
     (bits_ok (bit_buffer g) \<longrightarrow> bits_ok (bit_buffer g'))"

text \<open>
  The value that the loop of \<^verbatim>\<open>apply_whitening\<close> builds from the accumulator \<open>r\<close>,
  the indices and the bits drawn for them: \<^verbatim>\<open>result |= (bit << i)\<close> for each.
\<close>

definition pack_or :: "int \<Rightarrow> nat list \<Rightarrow> int list \<Rightarrow> int" where
  "pack_or r is bs = foldl (\<lambda>r (i, b). r OR push_bit i b) r (zip is bs)"

section \<open>The scrambler\<close>

lemma and_MASK64: "y AND MASK64 = take_bit 64 y"
proof -
  have "MASK64 = mask 64"
    by (simp add: MASK64_def mask_int_def)
  then show ?thesis
    by (simp add: take_bit_eq_mask)
qed

lemma xor_eq_0_int: "(x::int) XOR y = 0 \<longleftrightarrow> x = y"
  by (auto simp: bit_eq_iff bit_xor_iff)

text \<open>
  A left-shift step \<open>x ^= (x << k) & mask\<close> can only give 0 from 0: the low \<open>k\<close> bits
  of the shifted word are 0, so those of \<open>x\<close> are, and so on upwards.
\<close>

lemma left_step_zero:
  fixes x :: int
  assumes "x XOR take_bit 64 (push_bit k x) = 0" and "0 < k"
  shows "x = 0"
proof -
  from assms(1) have eq: "x = take_bit 64 (push_bit k x)"
    by (simp add: xor_eq_0_int)
  have "\<not> bit x n" for n
  proof (induction n rule: less_induct)
    case (less n)
    show ?case
    proof
      assume "bit x n"
      then have "bit (take_bit 64 (push_bit k x)) n"
        using eq by simp
      then have "k \<le> n" and "bit x (n - k)"
        by (simp_all add: bit_take_bit_iff bit_push_bit_iff_int)
      moreover from \<open>k \<le> n\<close> \<open>0 < k\<close> have "n - k < n"
        by simp
      ultimately show False
        using less.IH by blast
    qed
  qed
  then show ?thesis
    by (simp add: bit_eq_iff)
qed

text \<open>A right-shift step \<open>x ^= x >> k\<close> on a non-negative \<open>x\<close> likewise.\<close>

lemma right_step_zero:
  fixes x :: int
  assumes "x XOR drop_bit k x = 0" and "0 < k" and "0 \<le> x"
  shows "x = 0"
proof (rule ccontr)
  assume "x \<noteq> 0"
  with \<open>0 \<le> x\<close> have pos: "0 < x" by simp
  from assms(1) have eq: "x = drop_bit k x"
    by (simp add: xor_eq_0_int)
  have "(2::int) \<le> 2 ^ k"
    using \<open>0 < k\<close> by (metis One_nat_def Suc_leI one_le_numeral power_increasing power_one_right)
  then have "x div 2 ^ k < x"
    using pos by (simp add: int_div_less_self)
  with eq show False
    by (simp add: drop_bit_eq_div)
qed

lemma left_step_range:
  fixes x :: int
  assumes "0 \<le> x" and "x < 2 ^ 64"
  shows "0 \<le> x XOR take_bit 64 y \<and> x XOR take_bit 64 y < 2 ^ 64"
proof
  show "0 \<le> x XOR take_bit 64 y"
    using assms(1) by (intro XOR_lower) simp_all
  have "take_bit 64 y < (2::int) ^ 64"
    by (rule take_bit_int_less_exp)
  with assms show "x XOR take_bit 64 y < 2 ^ 64"
    by (intro XOR_upper)
qed

lemma right_step_range:
  fixes x :: int
  assumes "0 \<le> x" and "x < 2 ^ 64"
  shows "0 \<le> x XOR drop_bit k x \<and> x XOR drop_bit k x < 2 ^ 64"
proof -
  have le: "drop_bit k x \<le> x"
  proof (cases "x = 0")
    case True
    then show ?thesis by simp
  next
    case False
    with assms(1) have "0 < x" by simp
    then show ?thesis
      by (simp add: drop_bit_eq_div int_div_le_self)
  qed
  show ?thesis
  proof
    show "0 \<le> x XOR drop_bit k x"
      using assms(1) by (intro XOR_lower) simp_all
    from le assms(2) have "drop_bit k x < 2 ^ 64"
      by linarith
    with assms show "x XOR drop_bit k x < 2 ^ 64"
      by (intro XOR_upper)
  qed
qed

lemma xorshift64_raw_state_ok:
  assumes "state_ok (state g)"
  shows "state_ok (state (snd (xorshift64_raw g)))"
proof -
  define x0 where "x0 = state g"
  define x1 where "x1 = x0 XOR take_bit 64 (push_bit 12 x0)"
  define x2 where "x2 = x1 XOR drop_bit 25 x1"
  define x3 where "x3 = x2 XOR take_bit 64 (push_bit 27 x2)"
  have st: "state (snd (xorshift64_raw g)) = x3"
    by (simp add: xorshift64_raw_def Let_def and_MASK64 x0_def x1_def x2_def x3_def)
  from assms have r0: "0 \<le> x0" "x0 < 2 ^ 64" and n0: "x0 \<noteq> 0"
    by (simp_all add: state_ok_def x0_def)
  have r1: "0 \<le> x1" "x1 < 2 ^ 64"
    using left_step_range [OF r0] by (simp_all add: x1_def)
  have n1: "x1 \<noteq> 0"
    using left_step_zero [of x0 12] n0 by (auto simp: x1_def)
  have r2: "0 \<le> x2" "x2 < 2 ^ 64"
    using right_step_range [OF r1] by (simp_all add: x2_def)
  have n2: "x2 \<noteq> 0"
    using right_step_zero [of x1 25] n1 r1 by (auto simp: x2_def)
  have r3: "0 \<le> x3" "x3 < 2 ^ 64"
    using left_step_range [OF r2] by (simp_all add: x3_def)
  have n3: "x3 \<noteq> 0"
    using left_step_zero [of x2 27] n2 by (auto simp: x3_def)
  from r3 n3 show ?thesis
    by (simp add: st state_ok_def)
qed

lemma xorshift64_raw_frame:
  "bit_buffer (snd (xorshift64_raw g)) = bit_buffer g"
  "buffer_index (snd (xorshift64_raw g)) = buffer_index g"
  by (simp_all add: xorshift64_raw_def Let_def)

lemma xorshift64_raw_arith:
  "xorshift64_raw g =
     (let x0 = state g;
          x1 = x0 XOR ((x0 * 2 ^ 12) mod 2 ^ 64);
          x2 = x1 XOR (x1 div 2 ^ 25);
          x3 = x2 XOR ((x2 * 2 ^ 27) mod 2 ^ 64)
      in ((x3 * 2685821657736338717) mod 2 ^ 64, g\<lparr>state := x3\<rparr>))"
  by (simp add: xorshift64_raw_def Let_def and_MASK64 MAGIC_def take_bit_int_def
      push_bit_eq_mult drop_bit_eq_div)

lemma uint_push_bit64: "uint (push_bit n (w :: 64 word)) = take_bit 64 (push_bit n (uint w))"
  by (simp add: unsigned_push_bit_eq)

lemma uint_drop_bit64: "uint (drop_bit n (w :: 64 word)) = drop_bit n (uint w)"
  by (simp add: unsigned_drop_bit_eq bintr_uint)

lemma uint_left_step:
  "uint (w XOR push_bit n w) = uint w XOR take_bit 64 (push_bit n (uint w))" for w :: "64 word"
  by (simp only: uint_xor uint_push_bit64)

lemma uint_right_step:
  "uint (w XOR drop_bit n w) = uint w XOR drop_bit n (uint w)" for w :: "64 word"
  by (simp only: uint_xor uint_drop_bit64)

lemma uint_mult64: "uint (w * v) = take_bit 64 (uint w * uint v)" for w :: "64 word"
  by (simp add: uint_word_arith_bintrs)

lemma uint_MAGIC: "uint (2685821657736338717 :: 64 word) = MAGIC"
  by (simp add: MAGIC_def)

lemma xorshift64_raw_word:
  assumes "state g = uint w"
  shows "xorshift64_raw g =
     (uint (fst (next_raw_word w)), g\<lparr>state := uint (snd (next_raw_word w))\<rparr>)"
  unfolding xorshift64_raw_def next_raw_word_def Let_def and_MASK64 fst_conv snd_conv assms
  by (simp only: uint_left_step uint_right_step uint_mult64 uint_MAGIC)

text \<open>
  C2. \<^verbatim>\<open>_xorshift64_raw\<close> is the Xorshift64* step. From \<open>x = state\<close> it computes
  \<open>x ^= (x << 12) mod 2^64\<close>, \<open>x ^= x >> 25\<close>, \<open>x ^= (x << 27) mod 2^64\<close>, stores
  that \<open>x\<close> as the new state and returns \<open>(x * 2685821657736338717) mod 2^64\<close>; the
  bit buffer is untouched. On a state that is a 64-bit word the method is the step
  \<open>next_raw_word\<close> on machine words, where all arithmetic wraps modulo \<open>2^64\<close>.
\<close>

theorem xorshift64_raw_is_xorshift64star:
  "xorshift64_raw g =
     (let x0 = state g;
          x1 = x0 XOR ((x0 * 2 ^ 12) mod 2 ^ 64);
          x2 = x1 XOR (x1 div 2 ^ 25);
          x3 = x2 XOR ((x2 * 2 ^ 27) mod 2 ^ 64)
      in ((x3 * 2685821657736338717) mod 2 ^ 64, g\<lparr>state := x3\<rparr>))
   \<and> xorshift64_raw (g\<lparr>state := uint w\<rparr>) =
       (uint (fst (next_raw_word w)), g\<lparr>state := uint (snd (next_raw_word w))\<rparr>)"
proof
  show "xorshift64_raw g =
     (let x0 = state g;
          x1 = x0 XOR ((x0 * 2 ^ 12) mod 2 ^ 64);
          x2 = x1 XOR (x1 div 2 ^ 25);
          x3 = x2 XOR ((x2 * 2 ^ 27) mod 2 ^ 64)
      in ((x3 * 2685821657736338717) mod 2 ^ 64, g\<lparr>state := x3\<rparr>))"
    by (rule xorshift64_raw_arith)
  show "xorshift64_raw (g\<lparr>state := uint w\<rparr>) =
       (uint (fst (next_raw_word w)), g\<lparr>state := uint (snd (next_raw_word w))\<rparr>)"
    using xorshift64_raw_word [of "g\<lparr>state := uint w\<rparr>" w] by simp
qed

theorem xorshift64_raw_is_xorshift64star_witness:
  "xorshift64_raw (init 42) =
     (7339129661131613890, \<lparr>state = 23095381499946, bit_buffer = [], buffer_index = 0\<rparr>)
   \<and> xorshift64_raw (init 42) =
       (uint (fst (next_raw_word 42)), (init 42)\<lparr>state := uint (snd (next_raw_word 42))\<rparr>)"
proof -
  have a: "init 42 = \<lparr>state = 42, bit_buffer = [], buffer_index = 0\<rparr>"
    by code_simp
  have b: "(init 42)\<lparr>state := uint (42 :: 64 word)\<rparr> = init 42"
    by (simp add: a)
  have c: "(let x0 = state (init 42);
          x1 = x0 XOR ((x0 * 2 ^ 12) mod 2 ^ 64);
          x2 = x1 XOR (x1 div 2 ^ 25);
          x3 = x2 XOR ((x2 * 2 ^ 27) mod 2 ^ 64)
      in ((x3 * 2685821657736338717) mod 2 ^ 64, (init 42)\<lparr>state := x3\<rparr>))
    = (7339129661131613890, \<lparr>state = 23095381499946, bit_buffer = [], buffer_index = 0\<rparr>)"
    by code_simp
  from xorshift64_raw_is_xorshift64star [of "init 42" 42] show ?thesis
    unfolding b c .
qed

section \<open>Whitening and the bit buffer\<close>

lemma extract_bit_eq: "extract_bit raw i = (if bit raw i then 1 else 0)"
  by (simp add: extract_bit_def and_one_eq bit_iff_odd_drop_bit mod_2_eq_odd)

lemma whiten_pair_eq:
  "whiten_pair raw buf i = buf @ von_neumann_pair (bit raw i) (bit raw (i + 1))"
  by (simp add: whiten_pair_def extract_bit_eq Let_def)

lemma foldl_whiten_pair:
  "foldl (whiten_pair raw) buf is =
     buf @ concat (map (\<lambda>i. von_neumann_pair (bit raw i) (bit raw (i + 1))) is)"
  by (induction "is" arbitrary: buf) (simp_all add: whiten_pair_eq)

lemma range_step_pairs: "range_step 0 64 2 = map (\<lambda>k. 2 * k) [0..<32]"
  by code_simp

lemma whiten_word_eq: "whiten_word raw buf = buf @ von_neumann_word raw"
  by (simp only: whiten_word_def von_neumann_word_def foldl_whiten_pair range_step_pairs)

lemma von_neumann_pair_bits: "set (von_neumann_pair a b) \<subseteq> {0, 1}"
  by (cases a; cases b) simp_all

lemma von_neumann_word_bits: "bits_ok (von_neumann_word w)"
  using von_neumann_pair_bits by (fastforce simp: bits_ok_def von_neumann_word_def)

lemma bits_ok_append: "bits_ok (xs @ ys) \<longleftrightarrow> bits_ok xs \<and> bits_ok ys"
  by (auto simp: bits_ok_def)

lemma keeps_refl: "keeps g g"
  by (simp add: keeps_def)

lemma keeps_trans: "keeps g g1 \<Longrightarrow> keeps g1 g2 \<Longrightarrow> keeps g g2"
  by (simp add: keeps_def)

lemma keeps_rng_inv: "keeps g g' \<Longrightarrow> rng_inv g \<Longrightarrow> rng_inv g'"
  by (simp add: keeps_def rng_inv_def)

lemma xorshift64_raw_keeps: "keeps g (snd (xorshift64_raw g))"
  using xorshift64_raw_state_ok [of g] by (simp add: keeps_def xorshift64_raw_frame)

lemma fill_step_keeps:
  "keeps g ((snd (xorshift64_raw g))\<lparr>bit_buffer :=
           whiten_word (fst (xorshift64_raw g)) (bit_buffer (snd (xorshift64_raw g)))\<rparr>)"
  using xorshift64_raw_state_ok [of g]
  by (simp add: keeps_def xorshift64_raw_frame whiten_word_eq bits_ok_append
      von_neumann_word_bits)

lemma fill_buffer_post:
  assumes "fill_buffer g = Some g'"
  shows "32 \<le> length (bit_buffer g') \<and> keeps g g'"
proof (rule fill_buffer.raw_induct [OF _ assms])
  fix f g g'
  assume IH: "\<And>x y. f x = Some y \<Longrightarrow> 32 \<le> length (bit_buffer y) \<and> keeps x y"
    and body: "(if length (bit_buffer g) < 32
      then (case xorshift64_raw g of
              (raw, g1) \<Rightarrow> f (g1\<lparr>bit_buffer := whiten_word raw (bit_buffer g1)\<rparr>))
      else Some g) = Some g'"
  show "32 \<le> length (bit_buffer g') \<and> keeps g g'"
  proof (cases "length (bit_buffer g) < 32")
    case True
    with body have "f ((snd (xorshift64_raw g))\<lparr>bit_buffer :=
           whiten_word (fst (xorshift64_raw g)) (bit_buffer (snd (xorshift64_raw g)))\<rparr>) = Some g'"
      by (simp add: case_prod_beta)
    from IH [OF this] fill_step_keeps [of g] show ?thesis
      by (blast intro: keeps_trans)
  next
    case False
    with body show ?thesis
      by (simp add: keeps_refl)
  qed
qed

text \<open>
  \<^verbatim>\<open>generate_raw_bit\<close> never raises: after a refill the buffer holds at least 32
  bits, so \<^verbatim>\<open>pop(0)\<close> finds one.
\<close>

lemma generate_raw_bit_post:
  assumes "generate_raw_bit g = Some r"
  shows "\<exists>b g'. r = Inr (b, g') \<and> keeps g g' \<and>
           (bits_ok (bit_buffer g) \<longrightarrow> b = 0 \<or> b = 1)"
proof -
  obtain g1 where g1: "(if length (bit_buffer g) = 0 then fill_buffer g else Some g) = Some g1"
    using assms by (auto simp: generate_raw_bit_def split: option.splits)
  have ne: "bit_buffer g1 \<noteq> []" and k1: "keeps g g1"
    using g1 fill_buffer_post [of g g1] by (auto simp: keeps_refl split: if_splits)
  then obtain b rest where br: "bit_buffer g1 = b # rest"
    by (cases "bit_buffer g1") auto
  with assms g1 have r: "r = Inr (b, g1\<lparr>bit_buffer := rest\<rparr>)"
    by (simp add: generate_raw_bit_def)
  have "keeps g (g1\<lparr>bit_buffer := rest\<rparr>)"
    and "bits_ok (bit_buffer g) \<longrightarrow> b = 0 \<or> b = 1"
    using br k1 by (auto simp: keeps_def bits_ok_def)
  with r show ?thesis
    by blast
qed

text \<open>
  C3. \<^verbatim>\<open>_fill_buffer\<close> pulls raw words while the buffer holds fewer than 32 bits. For
  each pulled word \<open>w\<close> it appends, for the pairs \<open>(w[i], w[i+1])\<close> with
  \<open>i = 0, 2, \<dots>, 62\<close> in increasing order, the bit 0 for a pair (0,1), the bit 1 for
  a pair (1,0) and nothing for (0,0) and (1,1); with at least 32 bits it returns at once.
\<close>

theorem fill_buffer_von_neumann:
  "fill_buffer g =
     (if length (bit_buffer g) < 32
      then fill_buffer ((snd (xorshift64_raw g))
             \<lparr>bit_buffer := bit_buffer g @ von_neumann_word (fst (xorshift64_raw g))\<rparr>)
      else Some g)
   \<and> whiten_word w buf =
       buf @ concat (map (\<lambda>i. von_neumann_pair (extract_bit w i = 1) (extract_bit w (i + 1) = 1))
                      [0, 2, 4, 6, 8, 10, 12, 14, 16, 18, 20, 22, 24, 26, 28, 30, 32, 34, 36,
                       38, 40, 42, 44, 46, 48, 50, 52, 54, 56, 58, 60, 62])
   \<and> von_neumann_pair False True = [0] \<and> von_neumann_pair True False = [1]
   \<and> von_neumann_pair False False = [] \<and> von_neumann_pair True True = []"
proof -
  have idx: "map (\<lambda>k. 2 * k) [0..<32] =
      [0, 2, 4, 6, 8, 10, 12, 14, 16, 18, 20, 22, 24, 26, 28, 30, 32, 34, 36,
       38, 40, 42, 44, 46, 48, 50, 52, 54, 56, 58, 60, 62 :: nat]"
    by code_simp
  have ex: "(extract_bit w i = 1) = bit w i" for i
    by (simp add: extract_bit_eq)
  have "fill_buffer g =
     (if length (bit_buffer g) < 32
      then fill_buffer ((snd (xorshift64_raw g))
             \<lparr>bit_buffer := bit_buffer g @ von_neumann_word (fst (xorshift64_raw g))\<rparr>)
      else Some g)"
    by (subst fill_buffer.simps)
      (simp add: case_prod_beta whiten_word_eq xorshift64_raw_frame)
  moreover have "whiten_word w buf =
       buf @ concat (map (\<lambda>i. von_neumann_pair (extract_bit w i = 1) (extract_bit w (i + 1) = 1))
                      [0, 2, 4, 6, 8, 10, 12, 14, 16, 18, 20, 22, 24, 26, 28, 30, 32, 34, 36,
                       38, 40, 42, 44, 46, 48, 50, 52, 54, 56, 58, 60, 62])"
    unfolding whiten_word_eq von_neumann_word_def idx ex ..
  ultimately show ?thesis
    by simp
qed

theorem fill_buffer_von_neumann_witness:
  "fill_buffer (init 1) =
     fill_buffer \<lparr>state = 549890035713,
       bit_buffer = [1, 1, 1, 0, 0, 0, 1, 1, 1, 0, 0, 1, 1, 1], buffer_index = 0\<rparr>
   \<and> fill_buffer \<lparr>state = 1, bit_buffer = replicate 32 0, buffer_index = 0\<rparr> =
       Some \<lparr>state = 1, bit_buffer = replicate 32 0, buffer_index = 0\<rparr>
   \<and> whiten_word 6 [1, 1] = [1, 1, 0, 1]"
proof -
  have a: "(if length (bit_buffer (init 1)) < 32
      then fill_buffer ((snd (xorshift64_raw (init 1)))
             \<lparr>bit_buffer := bit_buffer (init 1) @ von_neumann_word (fst (xorshift64_raw (init 1)))\<rparr>)
      else Some (init 1)) =
     fill_buffer \<lparr>state = 549890035713,
       bit_buffer = [1, 1, 1, 0, 0, 0, 1, 1, 1, 0, 0, 1, 1, 1], buffer_index = 0\<rparr>"
  proof -
    have "(snd (xorshift64_raw (init 1)))
             \<lparr>bit_buffer := bit_buffer (init 1) @ von_neumann_word (fst (xorshift64_raw (init 1)))\<rparr>
       = \<lparr>state = 549890035713,
       bit_buffer = [1, 1, 1, 0, 0, 0, 1, 1, 1, 0, 0, 1, 1, 1], buffer_index = 0\<rparr>"
      by code_simp
    moreover have "length (bit_buffer (init 1)) < 32"
      by code_simp
    ultimately show ?thesis
      by simp
  qed
  have b: "(if length (bit_buffer \<lparr>state = 1, bit_buffer = replicate 32 0, buffer_index = 0\<rparr>) < 32
      then X else Some \<lparr>state = 1, bit_buffer = replicate 32 (0::int), buffer_index = 0\<rparr>)
      = Some \<lparr>state = 1, bit_buffer = replicate 32 0, buffer_index = 0\<rparr>" for X
    by simp
  have c: "[1, 1] @ concat (map (\<lambda>i. von_neumann_pair (extract_bit 6 i = 1) (extract_bit 6 (i + 1) = 1))
                      [0, 2, 4, 6, 8, 10, 12, 14, 16, 18, 20, 22, 24, 26, 28, 30, 32, 34, 36,
                       38, 40, 42, 44, 46, 48, 50, 52, 54, 56, 58, 60, 62]) = [1, 1, 0, 1]"
    by code_simp
  from fill_buffer_von_neumann [of "init 1" 6 "[1, 1]"]
    fill_buffer_von_neumann [of "\<lparr>state = 1, bit_buffer = replicate 32 0, buffer_index = 0\<rparr>" 6 "[1, 1]"]
  show ?thesis
    unfolding a b c by blast
qed

section \<open>Drawing and packing bits\<close>

lemma bits_loop_post:
  assumes "bits_loop n acc g = Some r"
  shows "\<exists>bs g'. r = Inr (acc @ bs, g') \<and> length bs = n \<and> keeps g g' \<and>
           (bits_ok (bit_buffer g) \<longrightarrow> bits_ok bs)"
  using assms
proof (induction n arbitrary: acc g)
  case 0
  then show ?case
    by (auto simp: bits_ok_def keeps_refl)
next
  case (Suc n)
  from Suc.prems obtain r1 where r1: "generate_raw_bit g = Some r1"
    by (auto split: option.splits)
  from generate_raw_bit_post [OF r1] obtain b g1 where
    bg: "r1 = Inr (b, g1)" and k1: "keeps g g1"
    and b: "bits_ok (bit_buffer g) \<longrightarrow> b = 0 \<or> b = 1"
    by blast
  from Suc.prems r1 bg have "bits_loop n (acc @ [b]) g1 = Some r"
    by simp
  from Suc.IH [OF this] obtain bs g' where
    r: "r = Inr ((acc @ [b]) @ bs, g')" and len: "length bs = n"
    and k2: "keeps g1 g'" and bs: "bits_ok (bit_buffer g1) \<longrightarrow> bits_ok bs"
    by blast
  have "r = Inr (acc @ (b # bs), g')" "length (b # bs) = Suc n"
    using r len by simp_all
  moreover have "keeps g g'"
    using k1 k2 by (rule keeps_trans)
  moreover have "bits_ok (bit_buffer g) \<longrightarrow> bits_ok (b # bs)"
    using b bs k1 by (auto simp: bits_ok_def keeps_def)
  ultimately show ?case
    by blast
qed

text \<open>
  The loop of \<^verbatim>\<open>apply_whitening\<close> draws the same bits, in the same order and
  leaving the same generator, as the loop of \<^verbatim>\<open>get_random_bits\<close>.
\<close>

lemma whitening_loop_bits:
  assumes "whitening_loop is r g = Some res"
  shows "\<exists>bs g'. res = Inr (pack_or r is bs, g') \<and>
           bits_loop (length is) acc g = Some (Inr (acc @ bs, g')) \<and> length bs = length is"
  using assms
proof (induction "is" arbitrary: r g acc)
  case Nil
  then show ?case
    by (auto simp: pack_or_def)
next
  case (Cons i "is")
  from Cons.prems obtain r1 where r1: "generate_raw_bit g = Some r1"
    by (auto split: option.splits)
  from generate_raw_bit_post [OF r1] obtain b g1 where bg: "r1 = Inr (b, g1)"
    by blast
  from Cons.prems r1 bg have "whitening_loop is (r OR push_bit i b) g1 = Some res"
    by simp
  from Cons.IH [OF this, of "acc @ [b]"] obtain bs g' where
    res: "res = Inr (pack_or (r OR push_bit i b) is bs, g')"
    and bl: "bits_loop (length is) (acc @ [b]) g1 = Some (Inr ((acc @ [b]) @ bs, g'))"
    and len: "length bs = length is"
    by blast
  have "res = Inr (pack_or r (i # is) (b # bs), g')"
    using res by (simp add: pack_or_def)
  moreover have "bits_loop (length (i # is)) acc g = Some (Inr (acc @ (b # bs), g'))"
    using bl r1 bg by simp
  moreover have "length (b # bs) = length (i # is)"
    using len by simp
  ultimately show ?case
    by blast
qed

text \<open>Bit \<open>j\<close> of the packed value is the bit drawn for index \<open>j\<close>.\<close>

lemma bit_pack_or:
  assumes "bits_ok bs"
  shows "bit (pack_or r [k..<k + length bs] bs) j \<longleftrightarrow>
           bit r j \<or> (k \<le> j \<and> j < k + length bs \<and> bs ! (j - k) = 1)"
  using assms
proof (induction bs arbitrary: r k)
  case Nil
  then show ?case
    by (auto simp: pack_or_def)
next
  case (Cons b bs)
  from Cons.prems have b: "b = 0 \<or> b = 1" and bs: "bits_ok bs"
    by (auto simp: bits_ok_def)
  have upt: "[k..<k + length (b # bs)] = k # [Suc k..<Suc k + length bs]"
    by (subst upt_rec) simp
  have step: "pack_or r (k # [Suc k..<Suc k + length bs]) (b # bs) =
      pack_or (r OR push_bit k b) [Suc k..<Suc k + length bs] bs"
    by (simp add: pack_or_def)
  have hd: "bit (push_bit k b) j \<longleftrightarrow> j = k \<and> b = 1"
    using b by (auto simp: bit_push_bit_iff_int bit_1_iff)
  show ?case
    unfolding upt step Cons.IH [OF bs] bit_or_int_iff hd
    by (auto simp: nth_Cons' Suc_diff_le less_Suc_eq_le)
qed

lemma bit_pack_or_0:
  assumes "bits_ok bs"
  shows "bit (pack_or 0 [0..<length bs] bs) j \<longleftrightarrow> j < length bs \<and> bs ! j = 1"
  using bit_pack_or [OF assms, of 0 0 j] by simp

lemma pack_or_range:
  assumes "bits_ok bs"
  shows "0 \<le> pack_or 0 [0..<length bs] bs \<and> pack_or 0 [0..<length bs] bs < 2 ^ length bs"
proof -
  let ?v = "pack_or 0 [0..<length bs] bs"
  have "take_bit (length bs) ?v = ?v"
    by (rule bit_eqI) (auto simp: bit_take_bit_iff bit_pack_or_0 [OF assms])
  then show ?thesis
    by (simp add: take_bit_int_eq_self_iff)
qed

lemma apply_whitening_bits:
  assumes "apply_whitening g (int n) = Some res"
  shows "\<exists>bs g'. res = Inr (pack_or 0 [0..<n] bs, g') \<and>
           get_random_bits g (int n) = Some (Inr (bs, g')) \<and> length bs = n \<and> keeps g g' \<and>
           (bits_ok (bit_buffer g) \<longrightarrow> bits_ok bs)"
proof -
  from assms have "whitening_loop [0..<n] 0 g = Some res"
    by (simp add: apply_whitening_def)
  from whitening_loop_bits [OF this, of "[]"] obtain bs g' where
    res: "res = Inr (pack_or 0 [0..<n] bs, g')"
    and bl: "bits_loop n [] g = Some (Inr (bs, g'))" and len: "length bs = n"
    by auto
  from bits_loop_post [OF bl] have "keeps g g'" "bits_ok (bit_buffer g) \<longrightarrow> bits_ok bs"
    by auto
  with res bl len show ?thesis
    by (auto simp: get_random_bits_def)
qed

lemma apply_whitening_post:
  assumes "apply_whitening g num_bits = Some res"
  shows "\<exists>v g'. res = Inr (v, g') \<and> keeps g g' \<and>
           (bits_ok (bit_buffer g) \<longrightarrow> 0 \<le> v \<and> v < 2 ^ nat num_bits)"
proof -
  have "apply_whitening g (int (nat num_bits)) = Some res"
    using assms unfolding apply_whitening_def nat_int .
  from apply_whitening_bits [OF this] obtain bs g' where
    res: "res = Inr (pack_or 0 [0..<nat num_bits] bs, g')" and len: "length bs = nat num_bits"
    and k: "keeps g g'" and bs: "bits_ok (bit_buffer g) \<longrightarrow> bits_ok bs"
    by blast
  show ?thesis
    using res k bs pack_or_range [of bs] len by auto
qed

section \<open>Bounded sampling\<close>

lemma sample_loop_post:
  assumes "sample_loop g width max_value = Some res"
  shows "\<exists>v g'. res = Inr (v, g') \<and> v < max_value \<and> keeps g g' \<and>
           (bits_ok (bit_buffer g) \<longrightarrow> 0 \<le> v)"
proof (rule sample_loop.raw_induct [OF _ assms])
  fix f g width max_value res
  assume IH: "\<And>g width max_value res. f g width max_value = Some res \<Longrightarrow>
      \<exists>v g'. res = Inr (v, g') \<and> v < max_value \<and> keeps g g' \<and>
        (bits_ok (bit_buffer g) \<longrightarrow> 0 \<le> v)"
    and body: "(case apply_whitening g (int width) of
        None \<Rightarrow> None
      | Some (Inl e) \<Rightarrow> Some (Inl e)
      | Some (Inr (num, g1)) \<Rightarrow>
          if num < max_value then Some (Inr (num, g1)) else f g1 width max_value) = Some res"
  from body obtain r1 where r1: "apply_whitening g (int width) = Some r1"
    by (auto split: option.splits)
  from apply_whitening_post [OF r1] obtain num g1 where
    ng: "r1 = Inr (num, g1)" and k1: "keeps g g1"
    and n0: "bits_ok (bit_buffer g) \<longrightarrow> 0 \<le> num"
    by blast
  show "\<exists>v g'. res = Inr (v, g') \<and> v < max_value \<and> keeps g g' \<and>
        (bits_ok (bit_buffer g) \<longrightarrow> 0 \<le> v)"
  proof (cases "num < max_value")
    case True
    with body r1 ng have "res = Inr (num, g1)"
      by simp
    with True k1 n0 show ?thesis
      by blast
  next
    case False
    with body r1 ng have "f g1 width max_value = Some res"
      by simp
    from IH [OF this] obtain v g' where
      "res = Inr (v, g')" "v < max_value" "keeps g1 g'" "bits_ok (bit_buffer g1) \<longrightarrow> 0 \<le> v"
      by blast
    moreover from this k1 have "keeps g g'" "bits_ok (bit_buffer g) \<longrightarrow> 0 \<le> v"
      by (auto simp: keeps_def)
    ultimately show ?thesis
      by blast
  qed
qed

lemma get_random_number_post:
  assumes "get_random_number g max_value = Some res"
  shows "\<exists>v g'. res = Inr (v, g') \<and> keeps g g' \<and>
           (1 < max_value \<longrightarrow> v < max_value \<and> (bits_ok (bit_buffer g) \<longrightarrow> 0 \<le> v))"
proof (cases "max_value \<le> 1")
  case True
  with assms show ?thesis
    by (auto simp: get_random_number_def keeps_refl)
next
  case False
  with assms have "sample_loop g (bit_length max_value) max_value = Some res"
    by (simp add: get_random_number_def)
  from sample_loop_post [OF this] show ?thesis
    by blast
qed

section \<open>Reachable generators\<close>

lemma init_inv: "rng_inv (init seed)"
proof -
  have "0 \<le> take_bit 64 seed"
    by simp
  moreover have "take_bit 64 seed < 2 ^ 64"
    by (rule take_bit_int_less_exp)
  ultimately have "state_ok (if take_bit 64 seed = 0 then 1 else take_bit 64 seed)"
    unfolding state_ok_def by (simp del: take_bit_nonnegative)
  then show ?thesis
    by (simp add: init_def Let_def and_MASK64 rng_inv_def bits_ok_def)
qed

lemma perform_keeps:
  assumes "perform g c = Some res"
  shows "\<exists>v g'. res = Inr (v, g') \<and> keeps g g'"
proof (cases c)
  case XorshiftRaw
  obtain a b where ab: "xorshift64_raw g = (a, b)"
    by (cases "xorshift64_raw g")
  have "keeps g b"
    using xorshift64_raw_keeps [of g] by (simp add: ab)
  with assms XorshiftRaw ab show ?thesis
    by auto
next
  case FillBuffer
  with assms obtain g' where "fill_buffer g = Some g'" "res = Inr (NoneVal, g')"
    by (cases "fill_buffer g") auto
  with fill_buffer_post [of g g'] show ?thesis
    by simp
next
  case GenerateRawBit
  with assms obtain r where r: "generate_raw_bit g = Some r"
    by (cases "generate_raw_bit g") auto
  from generate_raw_bit_post [OF r] assms GenerateRawBit r show ?thesis
    by auto
next
  case (ApplyWhitening n)
  with assms obtain r where r: "apply_whitening g n = Some r"
    by (cases "apply_whitening g n") auto
  from apply_whitening_post [OF r] assms ApplyWhitening r show ?thesis
    by auto
next
  case (GetRandomNumber m)
  with assms obtain r where r: "get_random_number g m = Some r"
    by (cases "get_random_number g m") auto
  from get_random_number_post [OF r] assms GetRandomNumber r show ?thesis
    by auto
next
  case (GetRandomBits n)
  with assms obtain r where r: "get_random_bits g n = Some r"
    by (cases "get_random_bits g n") auto
  from bits_loop_post [of "nat n" "[]" g r] assms GetRandomBits r show ?thesis
    by (auto simp: get_random_bits_def)
qed

lemma run_keeps:
  assumes "run g cs = Some res"
  shows "\<exists>vs g'. res = Inr (vs, g') \<and> keeps g g'"
  using assms
proof (induction cs arbitrary: g res)
  case Nil
  then show ?case
    by (auto simp: keeps_refl)
next
  case (Cons c cs)
  from Cons.prems obtain r1 where r1: "perform g c = Some r1"
    by (auto split: option.splits)
  from perform_keeps [OF r1] obtain v g1 where
    vg: "r1 = Inr (v, g1)" and k1: "keeps g g1"
    by blast
  from Cons.prems r1 vg obtain r2 where r2: "run g1 cs = Some r2"
    by (auto split: option.splits)
  from Cons.IH [OF r2] obtain vs g' where "r2 = Inr (vs, g')" "keeps g1 g'"
    by blast
  with Cons.prems r1 vg r2 k1 show ?case
    by (auto intro: keeps_trans)
qed

lemma reachable_inv:
  assumes "run (init seed) cs = Some (Inr (vs, g))"
  shows "rng_inv g"
  using run_keeps [OF assms] init_inv [of seed] by (auto intro: keeps_rng_inv)

section \<open>Bit width\<close>





text \<open>No method call raises: a call that returns, returns a value.\<close>

lemma perform_never_raises: "perform g c \<noteq> Some (Inl e)"
  using perform_keeps [of g c "Inl e"] by auto

section \<open>Properties of the generator\<close>

text \<open>
  C1. For every \<open>max_value > 1\<close>, every value that \<^verbatim>\<open>get_random_number(max_value)\<close>
  returns is at least 0 and less than \<open>max_value\<close>, whatever the seed and whatever
  calls were made on the generator before.
\<close>

theorem get_random_number_in_range:
  assumes "run (init seed) cs = Some (Inr (vs, g))"
    and "1 < max_value"
    and "get_random_number g max_value = Some (Inr (v, g'))"
  shows "0 \<le> v \<and> v < max_value"
proof -
  from reachable_inv [OF assms(1)] have "bits_ok (bit_buffer g)"
    by (simp add: rng_inv_def)
  with get_random_number_post [OF assms(3)] assms(2) show ?thesis
    by simp
qed

theorem get_random_number_in_range_witness:
  "run (init 1) [GetRandomNumber 256] =
     Some (Inr ([IntVal 3],
       \<lparr>state = 27021598384979973, bit_buffer = [0, 1, 1, 0, 0], buffer_index = 0\<rparr>))
   \<and> (1::int) < 3
   \<and> get_random_number
        \<lparr>state = 27021598384979973, bit_buffer = [0, 1, 1, 0, 0], buffer_index = 0\<rparr> 3 =
       Some (Inr (2, \<lparr>state = 27021598384979973, bit_buffer = [1, 0, 0], buffer_index = 0\<rparr>))
   \<and> (0::int) \<le> 2 \<and> (2::int) < 3"
proof -
  have a: "run (init 1) [GetRandomNumber 256] =
     Some (Inr ([IntVal 3],
       \<lparr>state = 27021598384979973, bit_buffer = [0, 1, 1, 0, 0], buffer_index = 0\<rparr>))"
    by code_simp
  have b: "(1::int) < 3"
    by simp
  have c: "get_random_number
        \<lparr>state = 27021598384979973, bit_buffer = [0, 1, 1, 0, 0], buffer_index = 0\<rparr> 3 =
       Some (Inr (2, \<lparr>state = 27021598384979973, bit_buffer = [1, 0, 0], buffer_index = 0\<rparr>))"
    by code_simp
  from get_random_number_in_range [OF a b c] a b c show ?thesis
    by blast
qed

text \<open>
  C4. The state is never zero. It is non-zero right after construction with any
  seed; \<^verbatim>\<open>_xorshift64_raw\<close>, the only method that assigns the state, takes a state in
  \<open>(0, 2^64)\<close> to a state in \<open>(0, 2^64)\<close>, and so does every method call that returns;
  hence the state is non-zero after any sequence of calls on a new generator.
\<close>

theorem state_never_zero:
  "state (init seed) \<noteq> 0
   \<and> (0 < state g \<and> state g < 2 ^ 64 \<longrightarrow>
        0 < state (snd (xorshift64_raw g)) \<and> state (snd (xorshift64_raw g)) < 2 ^ 64)
   \<and> (\<forall>c v g'. 0 < state g \<and> state g < 2 ^ 64 \<longrightarrow> perform g c = Some (Inr (v, g')) \<longrightarrow>
        0 < state g' \<and> state g' < 2 ^ 64)
   \<and> (\<forall>cs vs g'. run (init seed) cs = Some (Inr (vs, g')) \<longrightarrow> state g' \<noteq> 0)"
proof (intro conjI allI impI)
  show "state (init seed) \<noteq> 0"
    using init_inv [of seed] by (simp add: rng_inv_def state_ok_def)
next
  assume "0 < state g \<and> state g < 2 ^ 64"
  then show "0 < state (snd (xorshift64_raw g))" "state (snd (xorshift64_raw g)) < 2 ^ 64"
    using xorshift64_raw_state_ok [of g] by (simp_all add: state_ok_def)
next
  fix c v g'
  assume "0 < state g \<and> state g < 2 ^ 64" and "perform g c = Some (Inr (v, g'))"
  then show "0 < state g'" "state g' < 2 ^ 64"
    using perform_keeps [of g c "Inr (v, g')"] by (simp_all add: keeps_def state_ok_def)
next
  fix cs vs g'
  assume "run (init seed) cs = Some (Inr (vs, g'))"
  from reachable_inv [OF this] show "state g' \<noteq> 0"
    by (simp add: rng_inv_def state_ok_def)
qed

theorem state_never_zero_witness:
  "state (init 0) \<noteq> 0
   \<and> 0 < state (init 0) \<and> state (init 0) < 2 ^ 64
   \<and> state (snd (xorshift64_raw (init 0))) = 549890035713
   \<and> perform (init 0) GenerateRawBit =
       Some (Inr (IntVal 1, \<lparr>state = 27021598384979973,
         bit_buffer = [1, 1, 0, 0, 0, 1, 1, 1, 0, 0, 1, 1, 1, 1, 1, 0, 1, 1, 1, 0, 0, 0,
                       0, 0, 0, 0, 0, 1, 1, 0, 0], buffer_index = 0\<rparr>))
   \<and> run (init 0) [GetRandomNumber 256] =
       Some (Inr ([IntVal 3],
         \<lparr>state = 27021598384979973, bit_buffer = [0, 1, 1, 0, 0], buffer_index = 0\<rparr>))
   \<and> (27021598384979973::int) \<noteq> 0"
proof -
  have a: "0 < state (init 0) \<and> state (init 0) < 2 ^ 64"
    by code_simp
  have b: "perform (init 0) GenerateRawBit =
       Some (Inr (IntVal 1, \<lparr>state = 27021598384979973,
         bit_buffer = [1, 1, 0, 0, 0, 1, 1, 1, 0, 0, 1, 1, 1, 1, 1, 0, 1, 1, 1, 0, 0, 0,
                       0, 0, 0, 0, 0, 1, 1, 0, 0], buffer_index = 0\<rparr>))"
    by code_simp
  have c: "run (init 0) [GetRandomNumber 256] =
       Some (Inr ([IntVal 3],
         \<lparr>state = 27021598384979973, bit_buffer = [0, 1, 1, 0, 0], buffer_index = 0\<rparr>))"
    by code_simp
  have d: "state (snd (xorshift64_raw (init 0))) = 549890035713"
    by code_simp
  from state_never_zero [of 0 "init 0"] a b c d show ?thesis
    by simp
qed

text \<open>
  With the bits \<open>bs\<close> at the front of the buffer no refill happens: the loop pops them
  in order and returns.
\<close>

lemma whitening_loop_buffered:
  assumes "length is = length bs"
  shows "whitening_loop is r (g\<lparr>bit_buffer := bs @ rest\<rparr>) =
           Some (Inr (pack_or r is bs, g\<lparr>bit_buffer := rest\<rparr>))"
  using assms
proof (induction "is" arbitrary: bs r g)
  case Nil
  then show ?case
    by (simp add: pack_or_def)
next
  case (Cons i "is")
  then obtain b bs' where bs: "bs = b # bs'" and len: "length is = length bs'"
    by (cases bs) auto
  have pop: "generate_raw_bit (g\<lparr>bit_buffer := (b # bs') @ rest\<rparr>) =
      Some (Inr (b, (g\<lparr>bit_buffer := rest\<rparr>)\<lparr>bit_buffer := bs' @ rest\<rparr>))"
    by (simp add: generate_raw_bit_def)
  have step: "pack_or r (i # is) (b # bs') = pack_or (r OR push_bit i b) is bs'"
    by (simp add: pack_or_def)
  show ?case
    unfolding bs whitening_loop.simps pop step
    using Cons.IH [OF len, of "r OR push_bit i b" "g\<lparr>bit_buffer := rest\<rparr>"]
    by simp
qed

text \<open>
  The loop of \<^verbatim>\<open>apply_whitening\<close> returns exactly when the loop of
  \<^verbatim>\<open>get_random_bits\<close> does, with the drawn bits packed.
\<close>

lemma whitening_loop_eq_bits_loop:
  "whitening_loop is r g =
     (case bits_loop (length is) acc g of
        None \<Rightarrow> None
      | Some (Inl e) \<Rightarrow> Some (Inl e)
      | Some (Inr (ds, g')) \<Rightarrow> Some (Inr (pack_or r is (drop (length acc) ds), g')))"
proof (induction "is" arbitrary: r g acc)
  case Nil
  show ?case
    by (simp add: pack_or_def)
next
  case (Cons i "is")
  show ?case
  proof (cases "generate_raw_bit g")
    case None
    then show ?thesis
      by simp
  next
    case (Some r1)
    from generate_raw_bit_post [OF Some] obtain b g1 where bg: "r1 = Inr (b, g1)"
      by blast
    show ?thesis
    proof (cases "bits_loop (length is) (acc @ [b]) g1")
      case None
      with Some bg Cons.IH [of "r OR push_bit i b" g1 "acc @ [b]"] show ?thesis
        by simp
    next
      case res: (Some r2)
      from bits_loop_post [OF res] obtain ds g' where
        r2: "r2 = Inr ((acc @ [b]) @ ds, g')"
        by blast
      have "pack_or r (i # is) (b # ds) = pack_or (r OR push_bit i b) is ds"
        by (simp add: pack_or_def)
      with Some bg res r2 Cons.IH [of "r OR push_bit i b" g1 "acc @ [b]"] show ?thesis
        by simp
    qed
  qed
qed

lemma apply_whitening_eq_get_random_bits:
  "apply_whitening g (int n) =
     (case get_random_bits g (int n) of
        None \<Rightarrow> None
      | Some (Inl e) \<Rightarrow> Some (Inl e)
      | Some (Inr (ds, g')) \<Rightarrow> Some (Inr (pack_or 0 [0..<n] ds, g')))"
  using whitening_loop_eq_bits_loop [of "[0..<n]" 0 g "[]"]
  unfolding apply_whitening_def get_random_bits_def nat_int list.size drop_0 length_upt diff_zero .

lemma apply_whitening_buffered:
  "apply_whitening (g\<lparr>bit_buffer := bs @ rest\<rparr>) (int (length bs)) =
     Some (Inr (pack_or 0 [0..<length bs] bs, g\<lparr>bit_buffer := rest\<rparr>))"
  using whitening_loop_buffered [where ?is = "[0..<length bs]" and bs = bs and r = 0]
  by (simp add: apply_whitening_def)

text \<open>
  On an empty buffer the first draw refills; where the refill returns, up to 32 bits
  are packed from the refilled buffer without another refill.
\<close>

lemma apply_whitening_refill:
  assumes "bit_buffer g = []" and "fill_buffer g = Some g1" and "0 < n" and "n \<le> 32"
  shows "apply_whitening g (int n) =
     Some (Inr (pack_or 0 [0..<n] (take n (bit_buffer g1)),
                g1\<lparr>bit_buffer := drop n (bit_buffer g1)\<rparr>))"
proof -
  from fill_buffer_post [OF assms(2)] have len: "32 \<le> length (bit_buffer g1)"
    by simp
  then obtain b buf where buf: "bit_buffer g1 = b # buf"
    by (cases "bit_buffer g1") auto
  obtain m where n: "n = Suc m"
    using assms(3) by (cases n) auto
  have m: "m \<le> length buf"
    using len assms(4) buf n by simp
  have draw: "generate_raw_bit g = Some (Inr (b, g1\<lparr>bit_buffer := buf\<rparr>))"
    using assms(1,2) buf by (simp add: generate_raw_bit_def)
  have idx: "[0..<Suc m] = 0 # [Suc 0..<Suc m]"
    by (subst upt_rec) simp
  have split: "buf = take m buf @ drop m buf"
    by simp
  have rest: "whitening_loop [Suc 0..<Suc m] (0 OR push_bit 0 b) (g1\<lparr>bit_buffer := buf\<rparr>) =
      Some (Inr (pack_or (0 OR push_bit 0 b) [Suc 0..<Suc m] (take m buf),
                 g1\<lparr>bit_buffer := drop m buf\<rparr>))"
    using whitening_loop_buffered [where ?is = "[Suc 0..<Suc m]" and bs = "take m buf"
        and r = "0 OR push_bit 0 b" and g = g1 and rest = "drop m buf"] m
    by simp
  have pk: "pack_or 0 (0 # [Suc 0..<Suc m]) (b # take m buf) =
      pack_or (0 OR push_bit 0 b) [Suc 0..<Suc m] (take m buf)"
    by (simp add: pack_or_def)
  show ?thesis
    unfolding apply_whitening_def nat_int n idx whitening_loop.simps draw
    using rest pk by (simp add: buf)
qed

lemma pack_or_bits:
  assumes "bits_ok bs"
  shows "0 \<le> pack_or 0 [0..<length bs] bs \<and> pack_or 0 [0..<length bs] bs < 2 ^ length bs \<and>
         (\<forall>i<length bs. bit (pack_or 0 [0..<length bs] bs) i = (bs ! i = 1))"
  using pack_or_range [OF assms] bit_pack_or_0 [OF assms] by simp


text \<open>
  C5. \<^verbatim>\<open>apply_whitening(num_bits)\<close> draws \<open>num_bits\<close> bits and returns the integer in
  \<open>[0, 2^num_bits)\<close> whose bit \<open>i\<close> is the \<open>i\<close>-th bit drawn: the first bit drawn is
  bit 0, the second bit 1, and so on. With the bits at the front of the buffer it
  returns their packing and removes them; on an empty buffer it returns the packing
  of the first bits of the refilled buffer wherever the refill returns; in general it
  returns exactly when \<^verbatim>\<open>get_random_bits\<close> returns, with the drawn bits packed. With the
  bits 1, 0, 1 drawn, 3 bits pack to 5; packing 0 bits returns 0 and leaves the
  generator as it is.
\<close>

theorem apply_whitening_packs_lsb_first:
  "apply_whitening (g\<lparr>bit_buffer := bs @ rest\<rparr>) (int (length bs)) =
     Some (Inr (pack_or 0 [0..<length bs] bs, g\<lparr>bit_buffer := rest\<rparr>))
   \<and> (bits_ok bs \<longrightarrow>
        0 \<le> pack_or 0 [0..<length bs] bs \<and> pack_or 0 [0..<length bs] bs < 2 ^ length bs \<and>
        (\<forall>i<length bs. bit (pack_or 0 [0..<length bs] bs) i = (bs ! i = 1)))
   \<and> apply_whitening g (int m) =
       (case get_random_bits g (int m) of
          None \<Rightarrow> None
        | Some (Inl e) \<Rightarrow> Some (Inl e)
        | Some (Inr (ds, g')) \<Rightarrow> Some (Inr (pack_or 0 [0..<m] ds, g')))
   \<and> (\<forall>g1. bit_buffer g = [] \<longrightarrow> fill_buffer g = Some g1 \<longrightarrow> 0 < m \<longrightarrow> m \<le> 32 \<longrightarrow>
        apply_whitening g (int m) =
          Some (Inr (pack_or 0 [0..<m] (take m (bit_buffer g1)),
                     g1\<lparr>bit_buffer := drop m (bit_buffer g1)\<rparr>)))
   \<and> (\<forall>seed cs vs n v g'.
      run (init seed) cs = Some (Inr (vs, g)) \<longrightarrow>
      apply_whitening g (int n) = Some (Inr (v, g')) \<longrightarrow>
      (\<exists>bs. get_random_bits g (int n) = Some (Inr (bs, g')) \<and> length bs = n \<and>
            0 \<le> v \<and> v < 2 ^ n \<and>
            (\<forall>i<n. (bs ! i = 0 \<or> bs ! i = 1) \<and> bit v i = (bs ! i = 1))))
   \<and> apply_whitening (g\<lparr>bit_buffer := 1 # 0 # 1 # rest\<rparr>) 3 =
       Some (Inr (5, g\<lparr>bit_buffer := rest\<rparr>))
   \<and> apply_whitening g 0 = Some (Inr (0, g))"
proof (intro conjI allI impI)
  show "apply_whitening (g\<lparr>bit_buffer := bs @ rest\<rparr>) (int (length bs)) =
     Some (Inr (pack_or 0 [0..<length bs] bs, g\<lparr>bit_buffer := rest\<rparr>))"
    by (rule apply_whitening_buffered)
next
  assume ok: "bits_ok bs"
  show "0 \<le> pack_or 0 [0..<length bs] bs" "pack_or 0 [0..<length bs] bs < 2 ^ length bs"
    using pack_or_range [OF ok] by simp_all
  show "bit (pack_or 0 [0..<length bs] bs) i = (bs ! i = 1)" if "i < length bs" for i
    using bit_pack_or_0 [OF ok, of i] that by simp
next
  show "apply_whitening g (int m) =
       (case get_random_bits g (int m) of
          None \<Rightarrow> None
        | Some (Inl e) \<Rightarrow> Some (Inl e)
        | Some (Inr (ds, g')) \<Rightarrow> Some (Inr (pack_or 0 [0..<m] ds, g')))"
    by (rule apply_whitening_eq_get_random_bits)
next
  fix g1
  assume "bit_buffer g = []" "fill_buffer g = Some g1" "0 < m" "m \<le> 32"
  then show "apply_whitening g (int m) =
          Some (Inr (pack_or 0 [0..<m] (take m (bit_buffer g1)),
                     g1\<lparr>bit_buffer := drop m (bit_buffer g1)\<rparr>))"
    by (rule apply_whitening_refill)
next
  fix seed cs vs n v g'
  assume reach: "run (init seed) cs = Some (Inr (vs, g))"
    and aw: "apply_whitening g (int n) = Some (Inr (v, g'))"
  from reachable_inv [OF reach] have ok: "bits_ok (bit_buffer g)"
    by (simp add: rng_inv_def)
  from apply_whitening_bits [OF aw] ok obtain bs where
    v: "v = pack_or 0 [0..<n] bs" and grb: "get_random_bits g (int n) = Some (Inr (bs, g'))"
    and len: "length bs = n" and bs: "bits_ok bs"
    by auto
  have "0 \<le> v" "v < 2 ^ n"
    using pack_or_range [OF bs] by (simp_all add: v len)
  moreover have "(bs ! i = 0 \<or> bs ! i = 1) \<and> bit v i = (bs ! i = 1)" if "i < n" for i
    using that bs bit_pack_or_0 [OF bs, of i] len
    by (auto simp: v bits_ok_def dest: nth_mem)
  ultimately show "\<exists>bs. get_random_bits g (int n) = Some (Inr (bs, g')) \<and> length bs = n \<and>
            0 \<le> v \<and> v < 2 ^ n \<and>
            (\<forall>i<n. (bs ! i = 0 \<or> bs ! i = 1) \<and> bit v i = (bs ! i = 1))"
    using grb len by blast
next
  have idx: "[0..<3] = [0, 1, 2 :: nat]"
    by code_simp
  show "apply_whitening (g\<lparr>bit_buffer := 1 # 0 # 1 # rest\<rparr>) 3 =
       Some (Inr (5, g\<lparr>bit_buffer := rest\<rparr>))"
    by (simp add: apply_whitening_def idx generate_raw_bit_def)
next
  show "apply_whitening g 0 = Some (Inr (0, g))"
    by (simp add: apply_whitening_def)
qed

theorem apply_whitening_packs_lsb_first_witness:
  "bits_ok [1, 1, 1, 0]
   \<and> bit_buffer (init 1) = []
   \<and> fill_buffer (init 1) = Some
       \<lparr>state = 27021598384979973,
        bit_buffer = [1, 1, 1, 0, 0, 0, 1, 1, 1, 0, 0, 1, 1, 1, 1, 1, 0, 1, 1, 1, 0, 0, 0,
                      0, 0, 0, 0, 0, 1, 1, 0, 0], buffer_index = 0\<rparr>
   \<and> (0::nat) < 4 \<and> (4::nat) \<le> 32
   \<and> run (init 1) [] = Some (Inr ([], init 1))
   \<and> apply_whitening (init 1) (int 4) = Some (Inr (7,
       \<lparr>state = 27021598384979973,
        bit_buffer = [0, 0, 1, 1, 1, 0, 0, 1, 1, 1, 1, 1, 0, 1, 1, 1, 0, 0, 0, 0,
                      0, 0, 0, 0, 1, 1, 0, 0], buffer_index = 0\<rparr>))
   \<and> get_random_bits (init 1) (int 4) = Some (Inr ([1, 1, 1, 0],
       \<lparr>state = 27021598384979973,
        bit_buffer = [0, 0, 1, 1, 1, 0, 0, 1, 1, 1, 1, 1, 0, 1, 1, 1, 0, 0, 0, 0,
                      0, 0, 0, 0, 1, 1, 0, 0], buffer_index = 0\<rparr>))
   \<and> pack_or 0 [0..<4] [1, 1, 1, 0] = 7
   \<and> bit (7::int) 0 \<and> bit (7::int) 1 \<and> bit (7::int) 2 \<and> \<not> bit (7::int) 3"
proof -
  let ?G1 = "\<lparr>state = 27021598384979973,
        bit_buffer = [1, 1, 1, 0, 0, 0, 1, 1, 1, 0, 0, 1, 1, 1, 1, 1, 0, 1, 1, 1, 0, 0, 0,
                      0, 0, 0, 0, 0, 1, 1, 0, 0 :: int], buffer_index = 0\<rparr>"
  let ?G2 = "\<lparr>state = 27021598384979973,
        bit_buffer = [0, 0, 1, 1, 1, 0, 0, 1, 1, 1, 1, 1, 0, 1, 1, 1, 0, 0, 0, 0,
                      0, 0, 0, 0, 1, 1, 0, 0 :: int], buffer_index = 0\<rparr>"
  have ok: "bits_ok [1, 1, 1, 0]"
    by (simp add: bits_ok_def)
  have emp: "bit_buffer (init 1) = []"
    by code_simp
  have fill: "fill_buffer (init 1) = Some ?G1"
    by code_simp
  have n: "(0::nat) < 4" "(4::nat) \<le> 32"
    by simp_all
  have reach: "run (init 1) [] = Some (Inr ([], init 1))"
    by simp
  have grb: "get_random_bits (init 1) (int 4) = Some (Inr ([1, 1, 1, 0], ?G2))"
    by code_simp
  have pk: "pack_or 0 [0..<4] [1, 1, 1, 0] = 7"
    by code_simp
  have tk: "take 4 (bit_buffer ?G1) = [1, 1, 1, 0]"
    "?G1\<lparr>bit_buffer := drop 4 (bit_buffer ?G1)\<rparr> = ?G2"
    by simp_all
  note t = apply_whitening_packs_lsb_first
    [where g = "init 1" and bs = "[1, 1, 1, 0]" and rest = "[]" and m = 4]
  from t have "\<forall>g1. bit_buffer (init 1) = [] \<longrightarrow> fill_buffer (init 1) = Some g1 \<longrightarrow>
      (0::nat) < 4 \<longrightarrow> (4::nat) \<le> 32 \<longrightarrow>
      apply_whitening (init 1) (int 4) =
        Some (Inr (pack_or 0 [0..<4] (take 4 (bit_buffer g1)),
                   g1\<lparr>bit_buffer := drop 4 (bit_buffer g1)\<rparr>))"
    by blast
  with emp fill n have "apply_whitening (init 1) (int 4) =
        Some (Inr (pack_or 0 [0..<4] (take 4 (bit_buffer ?G1)),
                   ?G1\<lparr>bit_buffer := drop 4 (bit_buffer ?G1)\<rparr>))"
    by blast
  then have aw: "apply_whitening (init 1) (int 4) = Some (Inr (7, ?G2))"
    by (simp only: tk pk)
  have len: "length [1, 1, 1, 0 :: int] = 4"
    by simp
  from t ok have "\<forall>i<length [1, 1, 1, 0 :: int].
      bit (pack_or 0 [0..<length [1, 1, 1, 0 :: int]] [1, 1, 1, 0]) i = ([1, 1, 1, 0 :: int] ! i = 1)"
    by blast
  then have all: "\<forall>i<4. bit (7::int) i = ([1, 1, 1, 0 :: int] ! i = 1)"
    unfolding len pk .
  have bits: "bit (7::int) 0" "bit (7::int) 1" "bit (7::int) 2" "\<not> bit (7::int) 3"
    using all [rule_format, of 0] all [rule_format, of 1] all [rule_format, of 2]
      all [rule_format, of 3]
    by simp_all
  from ok emp fill n reach aw grb pk bits show ?thesis
    by blast
qed






text \<open>
  C7. \<^verbatim>\<open>get_random_number(0)\<close> and \<^verbatim>\<open>get_random_number(1)\<close> return 0 at once and
  leave the generator exactly as it was: the same state and the same bit buffer.
\<close>

theorem degenerate_range_no_op:
  "get_random_number g 0 = Some (Inr (0, g)) \<and> get_random_number g 1 = Some (Inr (0, g))"
  by (simp add: get_random_number_def)

theorem degenerate_range_no_op_witness:
  "get_random_number \<lparr>state = 42, bit_buffer = [1, 0], buffer_index = 0\<rparr> 0 =
     Some (Inr (0, \<lparr>state = 42, bit_buffer = [1, 0], buffer_index = 0\<rparr>))
   \<and> get_random_number \<lparr>state = 42, bit_buffer = [1, 0], buffer_index = 0\<rparr> 1 =
     Some (Inr (0, \<lparr>state = 42, bit_buffer = [1, 0], buffer_index = 0\<rparr>))"
  by (rule degenerate_range_no_op)

text \<open>
  C8. A generator constructed with seed 0 is the generator constructed with seed 1
  (the zero state is replaced by 1, no exception), so every call and every sequence
  of calls behaves the same on both.
\<close>

theorem seed_zero_is_seed_one:
  "init 0 = init 1 \<and> perform (init 0) c = perform (init 1) c
   \<and> run (init 0) cs = run (init 1) cs"
proof -
  have "init 0 = init 1"
    by (simp add: init_def MASK64_def)
  then show ?thesis
    by simp
qed

theorem seed_zero_is_seed_one_witness:
  "run (init 0) [GetRandomNumber 256] = run (init 1) [GetRandomNumber 256]
   \<and> run (init 1) [GetRandomNumber 256] =
       Some (Inr ([IntVal 3],
         \<lparr>state = 27021598384979973, bit_buffer = [0, 1, 1, 0, 0], buffer_index = 0\<rparr>))"
proof -
  have "run (init 1) [GetRandomNumber 256] =
       Some (Inr ([IntVal 3],
         \<lparr>state = 27021598384979973, bit_buffer = [0, 1, 1, 0, 0], buffer_index = 0\<rparr>))"
    by code_simp
  with seed_zero_is_seed_one [of XorshiftRaw "[GetRandomNumber 256]"] show ?thesis
    by simp
qed

text \<open>
  C9, as stated, at the input 01101001: read least-significant-first its four pairs
  are (1,0), (0,1), (0,1), (1,0), none of them equal, and whitening it gives the four
  bits 1, 0, 0, 1, not the three bits 1, 0, 0.
\<close>

theorem whitening_vector_counterexample:
  "pairs_at (binary [0, 1, 1, 0, 1, 0, 0, 1]) [0, 2, 4, 6] \<noteq> [(1, 0), (0, 1), (1, 1), (0, 1)]
   \<and> whiten_word (binary [0, 1, 1, 0, 1, 0, 0, 1]) [] \<noteq> [1, 0, 0]
   \<and> pairs_at (binary [0, 1, 1, 0, 1, 0, 0, 1]) [0, 2, 4, 6] = [(1, 0), (0, 1), (0, 1), (1, 0)]
   \<and> whiten_word (binary [0, 1, 1, 0, 1, 0, 0, 1]) [] = [1, 0, 0, 1]"
  by code_simp

text \<open>
  C9, amended. The 8-bit input whose pairs, read least-significant-first, are
  (1,0), (0,1), (1,1), (0,1) is 10111001. Whitening it appends exactly the three bits
  1, 0, 0 to the buffer; a pair of equal bits appends nothing. The input 01101001 has
  the pairs (1,0), (0,1), (0,1), (1,0) and appends the four bits 1, 0, 0, 1.
\<close>

theorem whitening_vector:
  "pairs_at (binary [1, 0, 1, 1, 1, 0, 0, 1]) [0, 2, 4, 6] = [(1, 0), (0, 1), (1, 1), (0, 1)]
   \<and> whiten_word (binary [1, 0, 1, 1, 1, 0, 0, 1]) buf = buf @ [1, 0, 0]
   \<and> (extract_bit w i = extract_bit w (i + 1) \<longrightarrow> whiten_pair w buf i = buf)
   \<and> pairs_at (binary [0, 1, 1, 0, 1, 0, 0, 1]) [0, 2, 4, 6] = [(1, 0), (0, 1), (0, 1), (1, 0)]
   \<and> whiten_word (binary [0, 1, 1, 0, 1, 0, 0, 1]) buf = buf @ [1, 0, 0, 1]"
proof (intro conjI impI)
  show "pairs_at (binary [1, 0, 1, 1, 1, 0, 0, 1]) [0, 2, 4, 6] = [(1, 0), (0, 1), (1, 1), (0, 1)]"
    by code_simp
  show "pairs_at (binary [0, 1, 1, 0, 1, 0, 0, 1]) [0, 2, 4, 6] = [(1, 0), (0, 1), (0, 1), (1, 0)]"
    by code_simp
  have "von_neumann_word (binary [1, 0, 1, 1, 1, 0, 0, 1]) = [1, 0, 0]"
    by code_simp
  then show "whiten_word (binary [1, 0, 1, 1, 1, 0, 0, 1]) buf = buf @ [1, 0, 0]"
    by (simp only: whiten_word_eq)
  have "von_neumann_word (binary [0, 1, 1, 0, 1, 0, 0, 1]) = [1, 0, 0, 1]"
    by code_simp
  then show "whiten_word (binary [0, 1, 1, 0, 1, 0, 0, 1]) buf = buf @ [1, 0, 0, 1]"
    by (simp only: whiten_word_eq)
  assume "extract_bit w i = extract_bit w (i + 1)"
  then show "whiten_pair w buf i = buf"
    by (simp add: whiten_pair_def Let_def)
qed

theorem whitening_vector_witness:
  "extract_bit 185 4 = extract_bit 185 (4 + 1)
   \<and> whiten_pair 185 [1, 0] 4 = [1, 0]
   \<and> whiten_word (binary [1, 0, 1, 1, 1, 0, 0, 1]) [] = [1, 0, 0]"
proof -
  have a: "extract_bit 185 4 = extract_bit 185 (4 + 1)"
    by code_simp
  from whitening_vector [of "[]" 185 4] whitening_vector [of "[1, 0]" 185 4] a show ?thesis
    by simp
qed

text \<open>
  C10. For a negative \<open>max_value\<close> the guard \<^verbatim>\<open>max_value <= 1\<close> holds, so
  \<^verbatim>\<open>get_random_number\<close> returns 0 and leaves the state and the bit buffer as they
  were.
\<close>

theorem negative_range_returns_zero:
  assumes "max_value < 0"
  shows "get_random_number g max_value = Some (Inr (0, g))"
  using assms by (simp add: get_random_number_def)

theorem negative_range_returns_zero_witness:
  "(-5::int) < 0
   \<and> get_random_number \<lparr>state = 42, bit_buffer = [1, 0], buffer_index = 0\<rparr> (-5) =
       Some (Inr (0, \<lparr>state = 42, bit_buffer = [1, 0], buffer_index = 0\<rparr>))"
proof -
  have a: "(-5::int) < 0"
    by simp
  from negative_range_returns_zero [OF a] a show ?thesis
    by blast
qed

end
